theory Spec2Isabelle
  imports Complex_Main
begin

section \<open>CGATCore/Pipeline/Control.py\<close>

text \<open>
  A shallow embedding of the parts of \<^verbatim>\<open>Control.py\<close> that adapt the gevent pool to
  ruffus (\<^verbatim>\<open>EventPool\<close>), cache the filesystem queries of \<^verbatim>\<open>os\<close>
  (\<^verbatim>\<open>cache_os_functions\<close>), dump the task graph (\<^verbatim>\<open>ruffus_return_dag\<close>) and track
  progress from the log stream (\<^verbatim>\<open>LoggingFilterProgress\<close>).

  Python strings are lists of code points; the model has the code points below 256
  (\<^typ>\<open>char\<close>). Python integers are \<^typ>\<open>int\<close>, dictionaries are maps, exceptions are
  values of a sum type.
\<close>

subsection \<open>EventPool\<close>

text \<open>
  \<^verbatim>\<open>gevent.pool.Pool\<close> is a library class: of a pool the model keeps the outstanding
  greenlets, and \<^verbatim>\<open>gevent.pool.Pool.__len__\<close> counts them.
\<close>

record 'g pool =
  greenlets :: "'g list"

definition Pool_len :: "'g pool \<Rightarrow> nat" where
  "Pool_len self = length (greenlets self)"

text \<open>
  \<^verbatim>\<open>
  def __len__(self):
      l = gevent.pool.Pool.__len__(self)
      if not l:
          return 1
      return l
  \<close>
\<close>

definition EventPool_len :: "'g pool \<Rightarrow> nat" where
  "EventPool_len self = (let l = Pool_len self in if l = 0 then 1 else l)"

text \<open>
  \<^verbatim>\<open>
  OLD_NEXT = gevent.pool.IMapUnordered.next

  @staticmethod
  def next_with_timeout(instance, timeout=None):
      return OLD_NEXT(instance)
  \<close>
  \<^verbatim>\<open>OLD_NEXT\<close> is gevent's blocking \<^verbatim>\<open>next\<close>: a parameter of the model. Its result type
  \<open>'r\<close> is whatever the library call yields (a value, a new pool state, not returning).
\<close>

definition next_with_timeout :: "('p \<Rightarrow> 'r) \<Rightarrow> 'p \<Rightarrow> 't option \<Rightarrow> 'r" where
  "next_with_timeout OLD_NEXT instance timeout = OLD_NEXT instance"

subsection \<open>cache_os_functions\<close>

text \<open>
  The five names of the \<^verbatim>\<open>os\<close> module that the region rebinds. Each is bound either
  to the function saved at import time (\<^verbatim>\<open>SAVED_OS_STAT\<close>, ...) or to its memoizing
  wrapper (\<^verbatim>\<open>cached_os_stat\<close>, ...).
\<close>

datatype binding = Saved | Cached

datatype query = Stat | Abspath | Realpath | Relpath | Islink

record 'r process =
  os_stat :: binding
  os_path_abspath :: binding
  os_path_realpath :: binding
  os_path_relpath :: binding
  os_path_islink :: binding
  memo :: "query \<times> string list \<rightharpoonup> 'r"

definition bound :: "'r process \<Rightarrow> query \<Rightarrow> binding" where
  "bound s q = (case q of Stat \<Rightarrow> os_stat s | Abspath \<Rightarrow> os_path_abspath s
     | Realpath \<Rightarrow> os_path_realpath s | Relpath \<Rightarrow> os_path_relpath s
     | Islink \<Rightarrow> os_path_islink s)"

text \<open>
  Modelled from the spec: the decorator \<^verbatim>\<open>E.cached_function\<close> (CGATCore.Experiment is
  not among the sources). The spec: "for each of the five wrapped queries, memoize the
  result keyed by the exact argument tuple". \<open>live q args\<close> is what the saved function
  returns on the filesystem as it is now.
\<close>

definition cached_function ::
  "(query \<Rightarrow> string list \<Rightarrow> 'r) \<Rightarrow> query \<Rightarrow> string list \<Rightarrow> 'r process \<Rightarrow> 'r \<times> 'r process" where
  "cached_function live q args s =
     (case memo s (q, args) of
        Some r \<Rightarrow> (r, s)
      | None \<Rightarrow> (let r = live q args in (r, s\<lparr>memo := (memo s)((q, args) \<mapsto> r)\<rparr>)))"

text \<open>A call through the module, \<^verbatim>\<open>os.stat(filename)\<close>, runs what the name is bound to.\<close>

definition os_call ::
  "(query \<Rightarrow> string list \<Rightarrow> 'r) \<Rightarrow> query \<Rightarrow> string list \<Rightarrow> 'r process \<Rightarrow> 'r \<times> 'r process" where
  "os_call live q args s =
     (case bound s q of Saved \<Rightarrow> (live q args, s) | Cached \<Rightarrow> cached_function live q args s)"

text \<open>
  \<^verbatim>\<open>
  @contextlib.contextmanager
  def cache_os_functions():
      os.stat = cached_os_stat
      os.path.abspath = cached_os_path_abspath
      os.path.realpath = cached_os_path_realpath
      os.path.relpath = cached_os_path_relpath
      os.path.islink = cached_os_path_islink

      yield

      os.stat = SAVED_OS_STAT
      os.path.abspath = SAVED_OS_PATH_ABSPATH
      os.path.realpath = SAVED_OS_PATH_REALPATH
      os.path.relpath = SAVED_OS_PATH_RELPATH
      os.path.islink = SAVED_OS_PATH_ISLINK
  \<close>
  \<open>before_yield\<close> is the generator up to its \<^verbatim>\<open>yield\<close>, \<open>after_yield\<close> the rest.
\<close>

definition before_yield :: "'r process \<Rightarrow> 'r process" where
  "before_yield s = s\<lparr>os_stat := Cached, os_path_abspath := Cached,
     os_path_realpath := Cached, os_path_relpath := Cached, os_path_islink := Cached\<rparr>"

definition after_yield :: "'r process \<Rightarrow> 'r process" where
  "after_yield s = s\<lparr>os_stat := Saved, os_path_abspath := Saved,
     os_path_realpath := Saved, os_path_relpath := Saved, os_path_islink := Saved\<rparr>"

text \<open>
  How the body of \<^verbatim>\<open>with cache_os_functions(): ...\<close> ends: it runs to its end, it
  leaves by \<^verbatim>\<open>return\<close> (or \<^verbatim>\<open>break\<close>, \<^verbatim>\<open>continue\<close>), or it raises.
\<close>

datatype 'e outcome = Normal | EarlyReturn | Raised 'e

text \<open>
  The \<^verbatim>\<open>with\<close> statement over a \<^verbatim>\<open>contextlib.contextmanager\<close> generator. On entry the
  generator runs to its \<^verbatim>\<open>yield\<close>. When the body ends without an exception the
  generator is resumed and runs the statements after the \<^verbatim>\<open>yield\<close>. When the body
  raises, the exception is thrown into the generator at the \<^verbatim>\<open>yield\<close>; the \<^verbatim>\<open>yield\<close> of
  \<^verbatim>\<open>cache_os_functions\<close> stands in no \<^verbatim>\<open>try\<close>, so the generator ends there with the
  exception and the statements after the \<^verbatim>\<open>yield\<close> do not run.
\<close>

definition cache_os_functions ::
  "('r process \<Rightarrow> 'e outcome \<times> 'r process) \<Rightarrow> 'r process \<Rightarrow> 'e outcome \<times> 'r process" where
  "cache_os_functions body s =
     (case body (before_yield s) of
        (Raised e, s') \<Rightarrow> (Raised e, s')
      | (out, s') \<Rightarrow> (out, after_yield s'))"

definition all_bound :: "binding \<Rightarrow> 'r process \<Rightarrow> bool" where
  "all_bound b s \<longleftrightarrow> os_stat s = b \<and> os_path_abspath s = b \<and> os_path_realpath s = b
     \<and> os_path_relpath s = b \<and> os_path_islink s = b"

text \<open>The process after import: nothing is swapped, nothing is memoized.\<close>

definition at_import :: "'r process" where
  "at_import = \<lparr>os_stat = Saved, os_path_abspath = Saved, os_path_realpath = Saved,
     os_path_relpath = Saved, os_path_islink = Saved, memo = Map.empty\<rparr>"

subsection \<open>Strings and patterns\<close>

text \<open>
  Python's whitespace (\<^verbatim>\<open>str.isspace\<close>, \<^verbatim>\<open>\s\<close> of \<^verbatim>\<open>re\<close> on \<^verbatim>\<open>str\<close>, what
  \<^verbatim>\<open>str.strip()\<close> removes), among the code points below 256.
\<close>

definition is_space :: "char \<Rightarrow> bool" where
  "is_space c \<longleftrightarrow> c \<in> set [CHR 0x09, CHR 0x0A, CHR 0x0B, CHR 0x0C, CHR 0x0D,
     CHR 0x1C, CHR 0x1D, CHR 0x1E, CHR 0x1F, CHR 0x20, CHR 0x85, CHR 0xA0]"

text \<open>The line boundaries of \<^verbatim>\<open>str.splitlines()\<close> below 256; \<^verbatim>\<open>\r\n\<close> is one boundary.\<close>

definition is_linebreak :: "char \<Rightarrow> bool" where
  "is_linebreak c \<longleftrightarrow> c \<in> set [CHR 0x0A, CHR 0x0B, CHR 0x0C, CHR 0x0D,
     CHR 0x1C, CHR 0x1D, CHR 0x1E, CHR 0x85]"

fun splitlines_from :: "string \<Rightarrow> string \<Rightarrow> string list" where
  "splitlines_from cur [] = (if cur = [] then [] else [cur])"
| "splitlines_from cur (c # cs) =
     (if c = CHR 0x0D \<and> cs \<noteq> [] \<and> hd cs = CHR 0x0A then cur # splitlines_from [] (tl cs)
      else if is_linebreak c then cur # splitlines_from [] cs
      else splitlines_from (cur @ [c]) cs)"

definition splitlines :: "string \<Rightarrow> string list" where
  "splitlines s = splitlines_from [] s"

definition strip :: "string \<Rightarrow> string" where
  "strip s = rev (dropWhile is_space (rev (dropWhile is_space s)))"

definition startswith :: "string \<Rightarrow> string \<Rightarrow> bool" where
  "startswith s p \<longleftrightarrow> take (length p) s = p"

definition endswith :: "string \<Rightarrow> string \<Rightarrow> bool" where
  "endswith s p \<longleftrightarrow> length p \<le> length s \<and> drop (length s - length p) s = p"

text \<open>\<^verbatim>\<open>p in s\<close>\<close>

fun contains :: "string \<Rightarrow> string \<Rightarrow> bool" where
  "contains [] p = (p = [])"
| "contains (c # cs) p = (startswith (c # cs) p \<or> contains cs p)"

text \<open>\<^verbatim>\<open>re.sub("\s", "", s)\<close>\<close>

definition remove_space :: "string \<Rightarrow> string" where
  "remove_space s = filter (\<lambda>c. \<not> is_space c) s"

text \<open>
  \<^verbatim>\<open>re.search(r"\[.*-> ([^\]]+)\]", s).groups()[0]\<close>, in three steps. The result
  \<open>None\<close> is \<^verbatim>\<open>re.search\<close> returning \<^verbatim>\<open>None\<close>, on which \<^verbatim>\<open>.groups()\<close> raises
  AttributeError.

  \<open>group_to_bracket\<close> matches \<^verbatim>\<open>([^\]]+)\]\<close> at the head of the string: the run of
  characters other than \<^verbatim>\<open>]\<close> must be non-empty and be followed by a \<^verbatim>\<open>]\<close> (a shorter
  run is followed by a character that is not \<^verbatim>\<open>]\<close>, so backtracking finds nothing else).
\<close>

definition group_to_bracket :: "string \<Rightarrow> string option" where
  "group_to_bracket s =
     (let g = takeWhile (\<lambda>c. c \<noteq> CHR '']'') s
      in if g \<noteq> [] \<and> length g < length s then Some g else None)"

definition arrow_group :: "string \<Rightarrow> string option" where
  "arrow_group s = (if startswith s ''-> '' then group_to_bracket (drop 3 s) else None)"

text \<open>
  \<^verbatim>\<open>.*-> ([^\]]+)\]\<close> at the head of the string. \<^verbatim>\<open>.*\<close> is greedy: the longest run of
  characters other than the newline is tried first, then shorter ones.
\<close>

fun dot_star_arrow :: "string \<Rightarrow> string option" where
  "dot_star_arrow [] = arrow_group []"
| "dot_star_arrow (c # cs) =
     (if c = CHR 0x0A then arrow_group (c # cs)
      else (case dot_star_arrow cs of Some g \<Rightarrow> Some g | None \<Rightarrow> arrow_group (c # cs)))"

text \<open>The search takes the leftmost \<^verbatim>\<open>[\<close> from which the pattern matches.\<close>

fun search_output :: "string \<Rightarrow> string option" where
  "search_output [] = None"
| "search_output (c # cs) =
     (if c = CHR ''['' then
        (case dot_star_arrow cs of Some g \<Rightarrow> Some g | None \<Rightarrow> search_output cs)
      else search_output cs)"

text \<open>
  \<^verbatim>\<open>Job\s+=\<close> and \<^verbatim>\<open>Task\s+=\<close>: the keyword, one or more whitespace characters, an
  equals sign. \<open>marker_at kw s\<close> matches at the head of \<open>s\<close> and returns what follows the
  match.
\<close>

definition marker_at :: "string \<Rightarrow> string \<Rightarrow> string option" where
  "marker_at kw s =
     (if startswith s kw then
        (let r = drop (length kw) s; r' = dropWhile is_space r
         in if length r' < length r \<and> startswith r' ''='' then Some (drop 1 r') else None)
      else None)"

text \<open>\<^verbatim>\<open>re.search(r"Job\s+=", s)\<close> as a truth value.\<close>

fun search_marker :: "string \<Rightarrow> string \<Rightarrow> bool" where
  "search_marker kw [] = (marker_at kw [] \<noteq> None)"
| "search_marker kw (c # cs) = (marker_at kw (c # cs) \<noteq> None \<or> search_marker kw cs)"

lemma marker_at_shorter: "marker_at kw s = Some r \<Longrightarrow> length r < length s"
  by (auto simp: marker_at_def Let_def split: if_splits)

text \<open>\<^verbatim>\<open>re.split("Job\s+=", text)\<close>: \<open>cur\<close> is the piece being read.\<close>

function re_split_Job :: "string \<Rightarrow> string \<Rightarrow> string list" where
  "re_split_Job cur [] = [cur]"
| "re_split_Job cur (c # cs) =
     (case marker_at ''Job'' (c # cs) of
        Some r \<Rightarrow> cur # re_split_Job [] r
      | None \<Rightarrow> re_split_Job (cur @ [c]) cs)"
  by pat_completeness auto
termination
  by (relation "measure (\<lambda>(cur, s). length s)") (auto dest: marker_at_shorter)

text \<open>\<^verbatim>\<open>s.split(" = ")\<close>\<close>

fun split_eq :: "string \<Rightarrow> string \<Rightarrow> string list" where
  "split_eq cur [] = [cur]"
| "split_eq cur (c # cs) =
     (if startswith (c # cs) '' = '' then cur # split_eq [] (drop 2 cs)
      else split_eq (cur @ [c]) cs)"

text \<open>\<^verbatim>\<open>re.sub('^\"[^"]+\"', "", s)\<close>: a leading docstring between double quotes.\<close>

definition drop_docstring :: "string \<Rightarrow> string" where
  "drop_docstring s =
     (case s of
        [] \<Rightarrow> s
      | c # r \<Rightarrow>
          (let d = takeWhile (\<lambda>x. x \<noteq> CHR 0x22) r; r' = dropWhile (\<lambda>x. x \<noteq> CHR 0x22) r
           in if c = CHR 0x22 \<and> d \<noteq> [] \<and> r' \<noteq> [] then drop 1 r' else s))"

text \<open>\<^verbatim>\<open>re.sub("^[^:]+::", "", task_name)\<close>: a leading namespace prefix.\<close>

definition strip_namespace :: "string \<Rightarrow> string" where
  "strip_namespace s =
     (let p = takeWhile (\<lambda>c. c \<noteq> CHR '':'') s; r = dropWhile (\<lambda>c. c \<noteq> CHR '':'') s
      in if p \<noteq> [] \<and> startswith r ''::'' then drop 2 r else s)"

subsection \<open>LoggingFilterProgress: reading the plan\<close>

text \<open>
  \<^verbatim>\<open>
  def split_by_job(text):
      text = re.sub('^\"[^"]+\"', "", "".join(text))
      for line in re.split("Job\s+=", text):
          if not line.strip():
              continue
          if "Make missing directories" in line:
              continue
          try:
              job_name = re.search(r"\[.*-> ([^\]]+)\]", line).groups()[0]
          except AttributeError:
              continue
          job_status = "ignore"
          if "Job needs update" in line:
              job_status = "update"
          yield job_name, job_status
  \<close>
  \<open>job_of_fragment\<close> is the body of the loop: \<open>None\<close> where it continues without a
  \<^verbatim>\<open>yield\<close>.
\<close>

definition job_of_fragment :: "string \<Rightarrow> (string \<times> string) option" where
  "job_of_fragment line =
     (if strip line = [] then None
      else if contains line ''Make missing directories'' then None
      else (case search_output line of
              None \<Rightarrow> None
            | Some job_name \<Rightarrow>
                Some (job_name, if contains line ''Job needs update'' then ''update'' else ''ignore'')))"

definition split_by_job :: "string list \<Rightarrow> (string \<times> string) list" where
  "split_by_job block = List.map_filter job_of_fragment (re_split_Job [] (drop_docstring (concat block)))"

text \<open>
  \<^verbatim>\<open>
  def split_by_task(text):
      block, task_name = [], None
      task_status = None
      for line in text.splitlines():
          line = line.strip()
          if line.startswith("Tasks which will be run"):
              task_status = "update"
              block = []
              continue
          elif line.startswith("Tasks which are up-to-date"):
              task_status = "ignore"
              block = []
              continue
          if line.startswith("Task = "):
              if task_name:
                  yield task_name, task_status, list(split_by_job(block))
              block = []
              task_name = re.match("Task = (.*)", line).groups()[0]
              continue
          if line:
              block.append(line)
      if task_name:
          yield task_name, task_status, list(split_by_job(block))
  \<close>
  \<open>flush\<close> is the guarded \<^verbatim>\<open>yield\<close>. The lines come from \<^verbatim>\<open>splitlines\<close> and hold no
  newline, so the group \<^verbatim>\<open>(.*)\<close> is the line after its first seven characters.
\<close>

type_synonym task_block = "string \<times> string option \<times> (string \<times> string) list"

definition flush :: "string option \<Rightarrow> string option \<Rightarrow> string list \<Rightarrow> task_block list" where
  "flush task_name task_status block =
     (case task_name of
        None \<Rightarrow> []
      | Some n \<Rightarrow> if n \<noteq> [] then [(n, task_status, split_by_job block)] else [])"

fun task_blocks ::
  "string list \<Rightarrow> string list \<Rightarrow> string option \<Rightarrow> string option \<Rightarrow> task_block list" where
  "task_blocks [] block task_name task_status = flush task_name task_status block"
| "task_blocks (line # lines) block task_name task_status =
     (if startswith line ''Tasks which will be run'' then
        task_blocks lines [] task_name (Some ''update'')
      else if startswith line ''Tasks which are up-to-date'' then
        task_blocks lines [] task_name (Some ''ignore'')
      else if startswith line ''Task = '' then
        flush task_name task_status block @ task_blocks lines [] (Some (drop 7 line)) task_status
      else if line \<noteq> [] then task_blocks lines (block @ [line]) task_name task_status
      else task_blocks lines block task_name task_status)"

definition split_by_task :: "string \<Rightarrow> task_block list" where
  "split_by_task text = task_blocks (map strip (splitlines text)) [] None None"

text \<open>
  The mode of the section that lines lead into: what the last section marker among them
  sets, and \<open>m\<close> when there is none.
\<close>

fun mode_after :: "string option \<Rightarrow> string list \<Rightarrow> string option" where
  "mode_after m [] = m"
| "mode_after m (line # lines) =
     mode_after (if startswith line ''Tasks which will be run'' then Some ''update''
                 else if startswith line ''Tasks which are up-to-date'' then Some ''ignore''
                 else m) lines"

text \<open>
  The state of the filter object. A value of \<^verbatim>\<open>self.tasks\<close> is the list
  \<^verbatim>\<open>[task_status, total, completed]\<close>; every key has a list of its own. \<open>logger\<close> is what
  \<^verbatim>\<open>self.logger.info\<close> has been given, oldest first.
\<close>

type_synonym task_entry = "string option \<times> int \<times> int"

record progress_event =
  task :: string
  task_status :: "string option"
  task_total :: int
  task_completed :: int
  task_completed_percent :: rat

record tracker =
  jobs :: "string \<rightharpoonup> string \<times> string"
  tasks :: "string \<rightharpoonup> task_entry"
  map_job2task :: "string \<rightharpoonup> string"
  logger :: "progress_event list"

text \<open>
  \<^verbatim>\<open>
  for job_name, job_status in jobs:
      self.jobs[job_name] = (task_name, job_name)
      if job_status == "update":
          to_run += 1
      self.map_job2task[re.sub("\s", "", job_name)] = task_name
  \<close>
\<close>

fun enter_jobs :: "string \<Rightarrow> (string \<times> string) list \<Rightarrow> int \<times> tracker \<Rightarrow> int \<times> tracker" where
  "enter_jobs task_name [] (to_run, self) = (to_run, self)"
| "enter_jobs task_name ((job_name, job_status) # js) (to_run, self) =
     enter_jobs task_name js
       (if job_status = ''update'' then to_run + 1 else to_run,
        self\<lparr>jobs := (jobs self)(job_name \<mapsto> (task_name, job_name)),
             map_job2task := (map_job2task self)(remove_space job_name \<mapsto> task_name)\<rparr>)"

text \<open>
  \<^verbatim>\<open>
  for task_name, task_status, jobs in split_by_task(ruffus_text):
      if task_name.startswith("(mkdir"):
          continue
      to_run = 0
      for job_name, job_status in jobs: ...
      self.tasks[task_name] = [task_status, len(jobs), len(jobs) - to_run]
  \<close>
\<close>

fun populate :: "task_block list \<Rightarrow> tracker \<Rightarrow> tracker" where
  "populate [] self = self"
| "populate ((task_name, status, js) # bs) self =
     (if startswith task_name ''(mkdir'' then populate bs self
      else (case enter_jobs task_name js (0, self) of
              (to_run, self') \<Rightarrow>
                populate bs
                  (self'\<lparr>tasks := (tasks self')(task_name \<mapsto>
                     (status, int (length js), int (length js) - to_run))\<rparr>)))"

definition LoggingFilterProgress_init :: "string \<Rightarrow> tracker" where
  "LoggingFilterProgress_init ruffus_text =
     populate (split_by_task ruffus_text)
       \<lparr>jobs = Map.empty, tasks = Map.empty, map_job2task = Map.empty, logger = []\<rparr>"

subsection \<open>LoggingFilterProgress: the filter\<close>

text \<open>
  A log record: the file it was logged from, its message, and the four attributes the
  filter attaches (\<^verbatim>\<open>task_status\<close>, \<^verbatim>\<open>task_total\<close>, \<^verbatim>\<open>task_completed\<close>,
  \<^verbatim>\<open>task_completed_percent\<close>), \<open>None\<close> while the record has none.
\<close>

record log_record =
  filename :: string
  msg :: string
  progress :: "(string option \<times> int \<times> int \<times> rat) option"

datatype py_error = KeyError string

text \<open>
  \<^verbatim>\<open>
  if task_total > 0:
      task_completed_percent = 100.0 * task_completed / task_total
  else:
      task_completed_percent = 0
  \<close>
  The quotient is exact here (a rational); the source rounds it to a float.
\<close>

definition completed_percent :: "task_entry \<Rightarrow> rat" where
  "completed_percent e =
     (case e of (status, total_jobs, completed_jobs) \<Rightarrow>
        if total_jobs > 0 then 100 * of_int completed_jobs / of_int total_jobs else 0)"

text \<open>
  The end of \<^verbatim>\<open>filter\<close>, from \<^verbatim>\<open># update log record\<close> on: read the entry of the task
  (KeyError when it has none), attach the four attributes, log the event, return True.
  The result is what \<^verbatim>\<open>filter\<close> returns (\<open>None\<close> for a bare \<^verbatim>\<open>return\<close>), the record and
  the filter object.
\<close>

definition update_log_record ::
  "tracker \<Rightarrow> log_record \<Rightarrow> string \<Rightarrow> py_error + (bool option \<times> log_record \<times> tracker)" where
  "update_log_record self record task_name =
     (case tasks self task_name of
        None \<Rightarrow> Inl (KeyError task_name)
      | Some (status, total_jobs, completed_jobs) \<Rightarrow>
          (let percent = completed_percent (status, total_jobs, completed_jobs);
               data = \<lparr>task = strip_namespace task_name, task_status = status,
                        task_total = total_jobs, task_completed = completed_jobs,
                        task_completed_percent = percent\<rparr>
           in Inr (Some True,
                   record\<lparr>progress := Some (status, total_jobs, completed_jobs, percent)\<rparr>,
                   self\<lparr>logger := logger self @ [data]\<rparr>)))"

text \<open>\<^verbatim>\<open>self.tasks[task_name][0] = status\<close>; the caller has checked the key.\<close>

definition set_status :: "tracker \<Rightarrow> string \<Rightarrow> string \<Rightarrow> tracker" where
  "set_status self task_name status =
     (case tasks self task_name of
        None \<Rightarrow> self
      | Some (old, total_jobs, completed_jobs) \<Rightarrow>
          self\<lparr>tasks := (tasks self)(task_name \<mapsto> (Some status, total_jobs, completed_jobs))\<rparr>)"

text \<open>
  \<^verbatim>\<open>
  def filter(self, record):
      if not record.filename.endswith("task.py"):
          return True
      job_name, task_name = None, None
      if re.search(r"Job\s+=", record.msg):
          try:
              job_name = re.search(r"\[.*-> ([^\]]+)\]", record.msg).groups()[0]
          except AttributeError:
              return True
          job_name = re.sub("\s", "", job_name)
          task_name = self.map_job2task.get(job_name, None)
          if task_name is None:
              return
          if "completed" in record.msg:
              self.tasks[task_name][2] += 1
      elif re.search(r"Task\s+=", record.msg):
          try:
              before, task_name = record.msg.strip().split(" = ")
          except ValueError:
              return True
          if task_name not in self.tasks:
              return True
          if before == "Task enters queue":
              self.tasks[task_name][0] = "running"
          elif before == "Completed Task":
              self.tasks[task_name][0] = "completed"
          elif before == "Uptodate Task":
              self.tasks[task_name][0] = "uptodate"
          else:
              return True
      else:
          return True
      if task_name is None:
          return
      ...
      return True
  \<close>
  Both branches that reach \<^verbatim>\<open>if task_name is None\<close> have set \<^verbatim>\<open>task_name\<close>, so that
  \<^verbatim>\<open>return\<close> is never taken. \<open>phase\<close> is the source's \<^verbatim>\<open>before\<close>.
\<close>

definition LoggingFilterProgress_filter ::
  "tracker \<Rightarrow> log_record \<Rightarrow> py_error + (bool option \<times> log_record \<times> tracker)" where
  "LoggingFilterProgress_filter self record =
     (if \<not> endswith (filename record) ''task.py'' then Inr (Some True, record, self)
      else if search_marker ''Job'' (msg record) then
        (case search_output (msg record) of
           None \<Rightarrow> Inr (Some True, record, self)
         | Some job_name \<Rightarrow>
             (case map_job2task self (remove_space job_name) of
                None \<Rightarrow> Inr (None, record, self)
              | Some task_name \<Rightarrow>
                  if contains (msg record) ''completed'' then
                    (case tasks self task_name of
                       None \<Rightarrow> Inl (KeyError task_name)
                     | Some (status, total_jobs, completed_jobs) \<Rightarrow>
                         update_log_record
                           (self\<lparr>tasks := (tasks self)(task_name \<mapsto> (status, total_jobs, completed_jobs + 1))\<rparr>)
                           record task_name)
                  else update_log_record self record task_name))
      else if search_marker ''Task'' (msg record) then
        (case split_eq [] (strip (msg record)) of
           [phase, task_name] \<Rightarrow>
             if tasks self task_name = None then Inr (Some True, record, self)
             else if phase = ''Task enters queue'' then
               update_log_record (set_status self task_name ''running'') record task_name
             else if phase = ''Completed Task'' then
               update_log_record (set_status self task_name ''completed'') record task_name
             else if phase = ''Uptodate Task'' then
               update_log_record (set_status self task_name ''uptodate'') record task_name
             else Inr (Some True, record, self)
         | _ \<Rightarrow> Inr (Some True, record, self))
      else Inr (Some True, record, self))"

text \<open>
  \<^verbatim>\<open>logging\<close> keeps a record when the filter's result is true and drops it otherwise;
  \<^verbatim>\<open>None\<close> is not true.
\<close>

datatype decision = Keep | Drop

definition decision_of :: "bool option \<Rightarrow> decision" where
  "decision_of r = (if r = Some True then Keep else Drop)"

text \<open>The filter object over a sequence of records, in arrival order.\<close>

fun feed :: "tracker \<Rightarrow> log_record list \<Rightarrow> py_error + tracker" where
  "feed self [] = Inr self"
| "feed self (record # records) =
     (case LoggingFilterProgress_filter self record of
        Inl e \<Rightarrow> Inl e
      | Inr (r, record', self') \<Rightarrow> feed self' records)"

subsection \<open>ruffus_return_dag\<close>

text \<open>
  The task graph is ruffus's: of a task \<open>t\<close> the function reads \<^verbatim>\<open>t.func_name\<close>,
  \<^verbatim>\<open>t.is_active\<close>, \<^verbatim>\<open>t.output_filenames\<close> and \<^verbatim>\<open>t._get_inward()\<close>, the tasks it
  depends on. Tasks are compared by identity: \<open>'n\<close> is the type of these identities.
\<close>

record 'n dag =
  func_name :: "'n \<Rightarrow> string"
  is_active :: "'n \<Rightarrow> bool"
  output_filenames :: "'n \<Rightarrow> string list"
  get_inward :: "'n \<Rightarrow> 'n list"

text \<open>\<^verbatim>\<open>sep.join(xs)\<close>\<close>

fun join :: "string \<Rightarrow> string list \<Rightarrow> string" where
  "join sep [] = []"
| "join sep [x] = x"
| "join sep (x # y # ys) = x @ sep @ join sep (y # ys)"

definition str_bool :: "bool \<Rightarrow> string" where
  "str_bool b = (if b then ''True'' else ''False'')"

text \<open>
  \<^verbatim>\<open>
  "\t".join(map(str, [t.func_name,
                      t.is_active,
                      ",".join(t.output_filenames) if t.output_filenames else "",
                      ",".join(x.func_name for x in t._get_inward())])) + "\n"
  \<close>
\<close>

definition row :: "'n dag \<Rightarrow> 'n \<Rightarrow> string" where
  "row g t =
     join [CHR 0x09]
       [func_name g t,
        str_bool (is_active g t),
        (if output_filenames g t \<noteq> [] then join '','' (output_filenames g t) else []),
        join '','' (map (func_name g) (get_inward g t))]
     @ [CHR 0x0A]"

text \<open>
  \<^verbatim>\<open>
  visited = set()
  while stack:
      t = stack.pop(0)
      visited.add(t)
      stream.write(...)
      for tt in t._get_inward():
          if tt not in visited:
              stack.append(tt)
  \<close>
  \<open>written\<close> lists the tasks whose row has been written, in the order of the rows. The
  loop may run forever on a graph that never ends: its result is an option.
\<close>

partial_function (option) dag_loop ::
  "('n \<Rightarrow> 'n list) \<Rightarrow> 'n list \<Rightarrow> 'n set \<Rightarrow> 'n list \<Rightarrow> 'n list option" where
  "dag_loop inward stack visited written =
     (case stack of
        [] \<Rightarrow> Some written
      | t # rest \<Rightarrow>
          dag_loop inward
            (rest @ filter (\<lambda>tt. tt \<notin> insert t visited) (inward t))
            (insert t visited)
            (written @ [t]))"

text \<open>
  The stream after the call: the header, then one row for each task written.
  \<^verbatim>\<open>_pipeline_prepare_to_run\<close> and \<^verbatim>\<open>topologically_sorted_nodes\<close> are ruffus's; the first
  resolves the targets to tasks, the result of the second is not used. The two lists
  are the tasks after that.
\<close>

definition ruffus_return_dag :: "'n dag \<Rightarrow> 'n list \<Rightarrow> 'n list \<Rightarrow> string list option" where
  "ruffus_return_dag g target_tasks forcedtorun_tasks =
     map_option
       (\<lambda>written. (''function'' @ [CHR 0x09] @ ''active'' @ [CHR 0x09] @ ''output_files''
                      @ [CHR 0x09] @ ''parents'' @ [CHR 0x0A]) # map (row g) written)
       (dag_loop (get_inward g) (target_tasks @ forcedtorun_tasks) {} [])"

subsection \<open>A measure for the loop of ruffus_return_dag\<close>

text \<open>
  \<open>N\<close> is a finite set of tasks that holds the stack and is closed under
  \<^verbatim>\<open>_get_inward\<close>, \<open>d\<close> bounds the number of tasks a task depends on. An entry of the
  stack weighs what it can still cause to be written: \<open>budget d u\<close> when \<open>u\<close> tasks of
  \<open>N\<close> are not yet visited, the entry among them, and \<open>budget d (u + 1)\<close> when the entry
  is visited already.
\<close>

primrec budget :: "nat \<Rightarrow> nat \<Rightarrow> nat" where
  "budget d 0 = 0"
| "budget d (Suc u) = 1 + d * budget d u"

definition weight :: "nat \<Rightarrow> 'n set \<Rightarrow> 'n set \<Rightarrow> 'n \<Rightarrow> nat" where
  "weight d N V n = budget d (card (N - V) + (if n \<in> V then 1 else 0))"

definition work :: "nat \<Rightarrow> 'n set \<Rightarrow> 'n set \<Rightarrow> 'n list \<Rightarrow> nat" where
  "work d N V stack = sum_list (map (weight d N V) stack)"

text \<open>
  Two graphs. In \<open>diamond\<close> task A depends on B and C, which both depend on D. In
  \<open>two_cycle\<close> A depends on B and B on A.
\<close>

definition diamond :: "string dag" where
  "diamond = \<lparr>func_name = (\<lambda>n. n), is_active = (\<lambda>n. True),
     output_filenames = (\<lambda>n. [n @ ''.out'']),
     get_inward = (\<lambda>n. if n = ''A'' then [''B'', ''C'']
                        else if n = ''B'' \<or> n = ''C'' then [''D''] else [])\<rparr>"

definition two_cycle :: "string dag" where
  "two_cycle = \<lparr>func_name = (\<lambda>n. n), is_active = (\<lambda>n. True),
     output_filenames = (\<lambda>n. [n @ ''.out'']),
     get_inward = (\<lambda>n. if n = ''A'' then [''B''] else if n = ''B'' then [''A''] else [])\<rparr>"

subsection \<open>Invariants of the filter object\<close>

text \<open>
  What holds of the filter object from its construction on: a job of the index belongs to
  a task that has an entry, and no count is negative.
\<close>

definition consistent :: "tracker \<Rightarrow> bool" where
  "consistent self \<longleftrightarrow>
     (\<forall>k t. map_job2task self k = Some t \<longrightarrow> tasks self t \<noteq> None)
     \<and> (\<forall>t st tot c. tasks self t = Some (st, tot, c) \<longrightarrow> 0 \<le> tot \<and> 0 \<le> c)"

text \<open>From one state to a later one: every entry keeps its total, no count of completed jobs falls.\<close>

definition advances :: "tracker \<Rightarrow> tracker \<Rightarrow> bool" where
  "advances self self' \<longleftrightarrow>
     (\<forall>t st tot c. tasks self t = Some (st, tot, c) \<longrightarrow>
        (\<exists>st' c'. tasks self' t = Some (st', tot, c') \<and> c \<le> c'))"

subsection \<open>An example\<close>

text \<open>
  A plan as \<^verbatim>\<open>pipeline_printout\<close> writes it: one task to run, with two jobs, the first
  of which needs an update. And a record logged from ruffus's \<^verbatim>\<open>task.py\<close>.
\<close>

definition example_plan :: string where
  "example_plan = ''Tasks which will be run:'' @ [CHR 0x0A] @ ''Task = align'' @ [CHR 0x0A]
     @ ''   Job  = [x -> out1.bam]'' @ [CHR 0x0A] @ ''     Job needs update: Missing file'' @ [CHR 0x0A]
     @ ''   Job  = [x -> out2.bam]'' @ [CHR 0x0A]"

definition example_record :: "string \<Rightarrow> log_record" where
  "example_record m = \<lparr>filename = ''ruffus/task.py'', msg = m, progress = None\<rparr>"

text \<open>
  A plan with both sections, the up-to-date tasks first as \<^verbatim>\<open>pipeline_printout\<close> writes
  them, the line of underscores between the sections included.
\<close>

definition two_section_plan :: string where
  "two_section_plan =
     ''Tasks which are up-to-date:'' @ [CHR 0x0A]
     @ ''Task = prepare'' @ [CHR 0x0A]
     @ ''   Job  = [in.txt -> prep.txt]'' @ [CHR 0x0A]
     @ ''________________________________________'' @ [CHR 0x0A]
     @ ''Tasks which will be run:'' @ [CHR 0x0A]
     @ ''Task = align'' @ [CHR 0x0A]
     @ ''   Job  = [prep.txt -> out1.bam]'' @ [CHR 0x0A]
     @ ''     Job needs update: Missing file [out1.bam]'' @ [CHR 0x0A]
     @ ''   Job  = [prep.txt -> out2.bam]'' @ [CHR 0x0A]
     @ ''Task = report'' @ [CHR 0x0A]
     @ ''   Job  = [out1.bam -> report.txt]'' @ [CHR 0x0A]
     @ ''     Job needs update: Missing file [report.txt]'' @ [CHR 0x0A]"

section \<open>Properties\<close>

subsection \<open>EventPool\<close>

text \<open>
  C6. The reported length of the pool is the number of outstanding greenlets when that
  number is positive, and 1 when it is 0: with no greenlet in flight it is 1, with three
  it is 3.
\<close>

theorem EventPool_len_count_or_one:
  "EventPool_len self = (if 0 < Pool_len self then Pool_len self else 1)
   \<and> EventPool_len \<lparr>greenlets = []\<rparr> = 1
   \<and> EventPool_len \<lparr>greenlets = [a, b, c]\<rparr> = 3"
  by (simp add: EventPool_len_def Pool_len_def)

text \<open>
  C9. For every pool instance and every timeout (\<open>None\<close> or a value),
  \<open>next_with_timeout\<close> returns what the saved blocking \<^verbatim>\<open>next\<close> returns on that
  instance; the timeout has no effect.
\<close>

theorem next_with_timeout_ignores_timeout:
  "next_with_timeout OLD_NEXT instance timeout = OLD_NEXT instance
   \<and> next_with_timeout OLD_NEXT instance timeout = next_with_timeout OLD_NEXT instance None"
  by (simp add: next_with_timeout_def)

subsection \<open>cache_os_functions\<close>

text \<open>
  C1, as the code has it. When the body of the region ends without an exception (it runs
  to its end or leaves early), the five names are bound to the saved functions again.
  The memo table is left as the body left it: nothing discards it. (When the body raises,
  the statements after the \<^verbatim>\<open>yield\<close> do not run; the theorem says nothing of that path.)
\<close>

theorem cache_os_functions_restores_on_return:
  assumes "fst (body (before_yield s)) \<in> {Normal, EarlyReturn}"
  shows "all_bound Saved (snd (cache_os_functions body s))
     \<and> memo (snd (cache_os_functions body s)) = memo (snd (body (before_yield s)))
     \<and> fst (cache_os_functions body s) = fst (body (before_yield s))"
  using assms
  by (cases "body (before_yield s)")
     (auto simp: cache_os_functions_def all_bound_def after_yield_def)

text \<open>A region whose body asks \<^verbatim>\<open>os.stat\<close> for one file and ends normally.\<close>

theorem cache_os_functions_restores_on_return_witness:
  "fst ((\<lambda>s. (Normal :: string outcome, snd (os_call (\<lambda>q a. ''live'') Stat [''f''] s)))
          (before_yield at_import)) \<in> {Normal, EarlyReturn}
   \<and> all_bound Saved (snd (cache_os_functions
         (\<lambda>s. (Normal :: string outcome, snd (os_call (\<lambda>q a. ''live'') Stat [''f''] s))) at_import))
   \<and> memo (snd (cache_os_functions
         (\<lambda>s. (Normal :: string outcome, snd (os_call (\<lambda>q a. ''live'') Stat [''f''] s))) at_import))
       (Stat, [''f'']) = Some ''live''"
  using cache_os_functions_restores_on_return
    [of "\<lambda>s. (Normal :: string outcome, snd (os_call (\<lambda>q a. ''live'') Stat [''f''] s))" at_import]
  by (simp add: os_call_def cached_function_def bound_def before_yield_def at_import_def Let_def)

text \<open>
  A body that raises ends the region at the \<^verbatim>\<open>yield\<close>: the state is the one the body
  left, with no name rebound.
\<close>

lemma cache_os_functions_raise:
  "body (before_yield s) = (Raised e, s') \<Longrightarrow> cache_os_functions body s = (Raised e, s')"
  by (simp add: cache_os_functions_def)

text \<open>
  C1 as stated fails twice. A body that raises leaves the five names bound to the
  memoizing wrappers; and after a region that ended normally the memo table still holds
  the answer given inside it.
\<close>

theorem cache_os_functions_raise_counterexample:
  "\<not> all_bound Saved
       (snd (cache_os_functions (\<lambda>s. (Raised ''OSError'', s)) (at_import :: string process)))
   \<and> memo (snd (cache_os_functions
        (\<lambda>s. (Normal :: string outcome, snd (os_call (\<lambda>q a. ''live'') Stat [''f''] s))) at_import))
       (Stat, [''f'']) = Some ''live''"
  by (simp add: cache_os_functions_def all_bound_def before_yield_def after_yield_def
      at_import_def os_call_def cached_function_def bound_def Let_def)

subsection \<open>The state of the filter object\<close>

lemma enter_jobs_tasks: "tasks (snd (enter_jobs n js (r, s))) = tasks s"
  by (induction js arbitrary: r s) auto

lemma enter_jobs_logger: "logger (snd (enter_jobs n js (r, s))) = logger s"
  by (induction js arbitrary: r s) auto

lemma enter_jobs_index:
  "map_job2task (snd (enter_jobs n js (r, s))) k =
     (if k \<in> (\<lambda>j. remove_space (fst j)) ` set js then Some n else map_job2task s k)"
proof (induction js arbitrary: r s)
  case Nil
  then show ?case by simp
next
  case (Cons j js)
  obtain a b where j: "j = (a, b)" by (cases j)
  show ?case unfolding j by (simp add: Cons.IH)
qed

lemma enter_jobs_to_run:
  "fst (enter_jobs n js (r, s)) = r + int (length (filter (\<lambda>j. snd j = ''update'') js))"
  by (induction js arbitrary: r s) auto

lemma populate_step_consistent:
  assumes "consistent s" "enter_jobs n js (0, s) = (to_run, s')"
  shows "consistent (s'\<lparr>tasks := (tasks s')(n \<mapsto> (st, int (length js), int (length js) - to_run))\<rparr>)"
proof -
  have t: "tasks s' = tasks s" using enter_jobs_tasks[of n js 0 s] assms(2) by simp
  have i: "\<And>k. map_job2task s' k = (if k \<in> (\<lambda>j. remove_space (fst j)) ` set js then Some n else map_job2task s k)"
    using enter_jobs_index[of n js 0 s] assms(2) by simp
  have r: "to_run = int (length (filter (\<lambda>j. snd j = ''update'') js))"
    using enter_jobs_to_run[of n js 0 s] assms(2) by simp
  have le: "to_run \<le> int (length js)" unfolding r by simp
  show ?thesis using assms(1) le unfolding consistent_def
    by (auto simp: t i split: if_splits)
qed

lemma populate_consistent: "consistent s \<Longrightarrow> consistent (populate bs s)"
proof (induction bs arbitrary: s)
  case Nil
  then show ?case by simp
next
  case (Cons b bs)
  obtain n st js where b: "b = (n, st, js)" by (cases b)
  obtain to_run s' where e: "enter_jobs n js (0, s) = (to_run, s')" by (cases "enter_jobs n js (0, s)")
  show ?case using Cons.IH Cons.prems populate_step_consistent[OF Cons.prems e]
    by (simp add: b e)
qed

lemma init_consistent: "consistent (LoggingFilterProgress_init ruffus_text)"
  unfolding LoggingFilterProgress_init_def
  by (rule populate_consistent) (simp add: consistent_def)

lemma update_log_record_result:
  assumes "tasks s n = Some (st, tot, c)"
  shows "update_log_record s rec n =
     Inr (Some True, rec\<lparr>progress := Some (st, tot, c, completed_percent (st, tot, c))\<rparr>,
          s\<lparr>logger := logger s @ [\<lparr>task = strip_namespace n, task_status = st, task_total = tot,
             task_completed = c, task_completed_percent = completed_percent (st, tot, c)\<rparr>]\<rparr>)"
  using assms by (simp add: update_log_record_def Let_def)

lemma consistent_update:
  assumes "consistent s" "tasks s n = Some (st, tot, c)" "c \<le> c'"
  shows "consistent (s\<lparr>tasks := (tasks s)(n \<mapsto> (st', tot, c'))\<rparr>)"
  using assms unfolding consistent_def by (auto split: if_splits) force+

lemma advances_update:
  assumes "tasks s n = Some (st, tot, c)" "c \<le> c'"
  shows "advances s (s\<lparr>tasks := (tasks s)(n \<mapsto> (st', tot, c'))\<rparr>)"
  using assms unfolding advances_def by auto

lemma consistent_logger: "consistent (s\<lparr>logger := l\<rparr>) = consistent s"
  by (simp add: consistent_def)

lemma advances_logger: "advances s (s'\<lparr>logger := l\<rparr>) = advances s s'"
  by (simp add: advances_def)

lemma advances_refl: "advances s s"
  by (simp add: advances_def)

lemma advances_trans: "advances a b \<Longrightarrow> advances b c \<Longrightarrow> advances a c"
  unfolding advances_def by (meson order_trans)

lemma update_log_record_ok:
  assumes "consistent s" "tasks s n \<noteq> None"
  shows "\<exists>r rec' s'. update_log_record s rec n = Inr (r, rec', s') \<and> consistent s' \<and> advances s s'"
proof -
  obtain st tot c where e: "tasks s n = Some (st, tot, c)" using assms(2) by (cases "tasks s n") auto
  show ?thesis
    unfolding update_log_record_result[OF e]
    using assms(1) by (simp add: consistent_logger advances_logger advances_refl)
qed

lemma update_after_change_ok:
  assumes "consistent s" "tasks s n = Some (st, tot, c)" "c \<le> c'"
  shows "\<exists>r rec' s'. update_log_record (s\<lparr>tasks := (tasks s)(n \<mapsto> (st', tot, c'))\<rparr>) rec n = Inr (r, rec', s')
           \<and> consistent s' \<and> advances s s'"
proof -
  let ?s1 = "s\<lparr>tasks := (tasks s)(n \<mapsto> (st', tot, c'))\<rparr>"
  have c1: "consistent ?s1" by (rule consistent_update[OF assms])
  have a1: "advances s ?s1" by (rule advances_update[OF assms(2,3)])
  have "tasks ?s1 n \<noteq> None" by simp
  from update_log_record_ok[OF c1 this, of rec] obtain r rec' s' where
    "update_log_record ?s1 rec n = Inr (r, rec', s')" "consistent s'" "advances ?s1 s'" by blast
  then show ?thesis using a1 advances_trans by blast
qed

lemma set_status_eq:
  "tasks s n = Some (st, tot, c) \<Longrightarrow> set_status s n new = s\<lparr>tasks := (tasks s)(n \<mapsto> (Some new, tot, c))\<rparr>"
  by (simp add: set_status_def)

lemma filter_ok:
  assumes "consistent s"
  shows "\<exists>r rec' s'. LoggingFilterProgress_filter s rec = Inr (r, rec', s') \<and> consistent s' \<and> advances s s'"
proof -
  have keep: "\<exists>r rec' s'. Inr (x, rec, s) = (Inr (r, rec', s') :: py_error + _) \<and> consistent s' \<and> advances s s'" for x
    using assms advances_refl by blast
  have job: "\<exists>r rec' s'. (if contains (msg rec) ''completed'' then
                    (case tasks s n of
                       None \<Rightarrow> Inl (KeyError n)
                     | Some (status, total_jobs, completed_jobs) \<Rightarrow>
                         update_log_record
                           (s\<lparr>tasks := (tasks s)(n \<mapsto> (status, total_jobs, completed_jobs + 1))\<rparr>)
                           rec n)
                  else update_log_record s rec n) = Inr (r, rec', s') \<and> consistent s' \<and> advances s s'"
    if idx: "map_job2task s k = Some n" for k n
  proof -
    from assms idx have "tasks s n \<noteq> None" unfolding consistent_def by blast
    then obtain st tot c where e: "tasks s n = Some (st, tot, c)" by (cases "tasks s n") auto
    show ?thesis
      using update_after_change_ok[OF assms e, of "c + 1" st rec]
        update_log_record_ok[OF assms, of n rec] e
      by (simp split: if_splits)
  qed
  have st: "\<exists>r rec' s'. update_log_record (set_status s n new) rec n = Inr (r, rec', s') \<and> consistent s' \<and> advances s s'"
    if "tasks s n \<noteq> None" for n new
  proof -
    from that obtain st tot c where e: "tasks s n = Some (st, tot, c)" by (cases "tasks s n") auto
    show ?thesis unfolding set_status_eq[OF e]
      using update_after_change_ok[OF assms e, of c "Some new" rec] by simp
  qed
  show ?thesis
    unfolding LoggingFilterProgress_filter_def
    using keep job st
    by (simp split: option.split list.split)
qed

lemma feed_ok:
  "consistent s \<Longrightarrow> \<exists>s'. feed s recs = Inr s' \<and> consistent s' \<and> advances s s'"
proof (induction recs arbitrary: s)
  case Nil
  then show ?case by (simp add: advances_refl)
next
  case (Cons rec recs)
  from filter_ok [OF Cons.prems, of rec] obtain r rec' s1 where
    f: "LoggingFilterProgress_filter s rec = Inr (r, rec', s1)" and c1: "consistent s1" and a1: "advances s s1"
    by blast
  from Cons.IH [OF c1] obtain s' where "feed s1 recs = Inr s'" "consistent s'" "advances s1 s'" by blast
  then show ?case using f a1 advances_trans by (auto simp: f)
qed

lemma reachable_consistent:
  "feed (LoggingFilterProgress_init ruffus_text) recs = Inr s \<Longrightarrow> consistent s"
  using feed_ok [OF init_consistent, of ruffus_text recs] by auto

lemma example_plan_align:
  "tasks (LoggingFilterProgress_init example_plan) ''align'' = Some (Some ''update'', 2, 1)"
  by code_simp

lemma example_plan_logger: "logger (LoggingFilterProgress_init example_plan) = []"
  by code_simp

lemma example_plan_index:
  "map_job2task (LoggingFilterProgress_init example_plan) (remove_space ''out1.bam'') = Some ''align''"
  by code_simp

subsection \<open>The filter on job records\<close>

text \<open>
  C2, as the code has it. A record from \<^verbatim>\<open>task.py\<close> whose message has the job marker
  but no bracketed output \<^verbatim>\<open>[... -> name]\<close> is kept (the filter returns True): the
  record and the filter object are unchanged, nothing is logged.
\<close>

theorem filter_unparsable_job_kept:
  assumes "endswith (filename record) ''task.py''"
    and "search_marker ''Job'' (msg record)"
    and "search_output (msg record) = None"
  shows "\<exists>r. LoggingFilterProgress_filter self record = Inr (r, record, self) \<and> decision_of r = Keep"
  using assms by (simp add: LoggingFilterProgress_filter_def decision_of_def)

theorem filter_unparsable_job_kept_witness:
  "endswith (filename (example_record ''Job  = out1.bam completed'')) ''task.py''
   \<and> search_marker ''Job'' (msg (example_record ''Job  = out1.bam completed''))
   \<and> search_output (msg (example_record ''Job  = out1.bam completed'')) = None
   \<and> (\<exists>r. LoggingFilterProgress_filter (LoggingFilterProgress_init example_plan)
             (example_record ''Job  = out1.bam completed'')
           = Inr (r, example_record ''Job  = out1.bam completed'', LoggingFilterProgress_init example_plan)
          \<and> decision_of r = Keep)"
proof -
  have h1: "endswith (filename (example_record ''Job  = out1.bam completed'')) ''task.py''"
    by code_simp
  have h2: "search_marker ''Job'' (msg (example_record ''Job  = out1.bam completed''))"
    by code_simp
  have h3: "search_output (msg (example_record ''Job  = out1.bam completed'')) = None"
    by code_simp
  show ?thesis
    using h1 h2 h3 filter_unparsable_job_kept [OF h1 h2 h3] by blast
qed

text \<open>
  C2 as stated (the record is dropped) fails on a record with the job marker and no
  bracket: the filter returns True.
\<close>

theorem filter_unparsable_job_counterexample:
  "search_marker ''Job'' ''Job  = out1.bam completed''
   \<and> search_output ''Job  = out1.bam completed'' = None
   \<and> LoggingFilterProgress_filter (LoggingFilterProgress_init example_plan)
        \<lparr>filename = ''ruffus/task.py'', msg = ''Job  = out1.bam completed'', progress = None\<rparr>
      = Inr (Some True,
             \<lparr>filename = ''ruffus/task.py'', msg = ''Job  = out1.bam completed'', progress = None\<rparr>,
             LoggingFilterProgress_init example_plan)
   \<and> decision_of (Some True) \<noteq> Drop"
proof -
  have h1: "endswith ''ruffus/task.py'' ''task.py''" by code_simp
  have h2: "search_marker ''Job'' ''Job  = out1.bam completed''" by code_simp
  have h3: "search_output ''Job  = out1.bam completed'' = None" by code_simp
  show ?thesis using h1 h2 h3 by (simp add: LoggingFilterProgress_filter_def decision_of_def)
qed

text \<open>
  C5. A record from \<^verbatim>\<open>task.py\<close> with the job marker whose output, once its whitespace
  is removed, is no key of \<^verbatim>\<open>map_job2task\<close> is dropped (the filter returns None): the
  filter object is unchanged, so no entry is mutated and nothing is logged, and the
  record is unchanged.
\<close>

theorem filter_unknown_job_dropped:
  assumes "endswith (filename record) ''task.py''"
    and "search_marker ''Job'' (msg record)"
    and "search_output (msg record) = Some job_name"
    and "map_job2task self (remove_space job_name) = None"
  shows "\<exists>r. LoggingFilterProgress_filter self record = Inr (r, record, self) \<and> decision_of r = Drop"
  using assms by (simp add: LoggingFilterProgress_filter_def decision_of_def)

theorem filter_unknown_job_dropped_witness:
  "endswith (filename (example_record ''Job  = [x -> other.bam] completed'')) ''task.py''
   \<and> search_marker ''Job'' (msg (example_record ''Job  = [x -> other.bam] completed''))
   \<and> search_output (msg (example_record ''Job  = [x -> other.bam] completed'')) = Some ''other.bam''
   \<and> map_job2task (LoggingFilterProgress_init example_plan) (remove_space ''other.bam'') = None
   \<and> (\<exists>r. LoggingFilterProgress_filter (LoggingFilterProgress_init example_plan)
             (example_record ''Job  = [x -> other.bam] completed'')
           = Inr (r, example_record ''Job  = [x -> other.bam] completed'', LoggingFilterProgress_init example_plan)
          \<and> decision_of r = Drop)"
proof -
  have h1: "endswith (filename (example_record ''Job  = [x -> other.bam] completed'')) ''task.py''"
    by code_simp
  have h2: "search_marker ''Job'' (msg (example_record ''Job  = [x -> other.bam] completed''))"
    by code_simp
  have h3: "search_output (msg (example_record ''Job  = [x -> other.bam] completed'')) = Some ''other.bam''"
    by code_simp
  have h4: "map_job2task (LoggingFilterProgress_init example_plan) (remove_space ''other.bam'') = None"
    by code_simp
  show ?thesis
    using h1 h2 h3 h4 filter_unknown_job_dropped [OF h1 h2 h3 h4] by blast
qed

text \<open>
  C4. In every state the filter object reaches from its construction, a record from
  \<^verbatim>\<open>task.py\<close> with the job marker whose output names a job of the index and whose
  message contains \<^verbatim>\<open>completed\<close> adds exactly 1 to the completed count of the owning
  task, leaves every other entry as it is, and reports the percentage
  \<open>100 * completed / total\<close> of the new count (0 when the total is 0), on the record and
  in the logged event; the record is kept.
\<close>

theorem filter_completed_job:
  assumes "feed (LoggingFilterProgress_init ruffus_text) records = Inr self"
    and "endswith (filename record) ''task.py''"
    and "search_marker ''Job'' (msg record)"
    and "search_output (msg record) = Some job_name"
    and "map_job2task self (remove_space job_name) = Some task_name"
    and "contains (msg record) ''completed''"
  shows "\<exists>status total_jobs completed_jobs percent.
     tasks self task_name = Some (status, total_jobs, completed_jobs)
     \<and> percent = (if 0 < total_jobs then 100 * of_int (completed_jobs + 1) / of_int total_jobs else 0)
     \<and> LoggingFilterProgress_filter self record =
         Inr (Some True,
              record\<lparr>progress := Some (status, total_jobs, completed_jobs + 1, percent)\<rparr>,
              self\<lparr>tasks := (tasks self)(task_name \<mapsto> (status, total_jobs, completed_jobs + 1)),
                   logger := logger self @
                     [\<lparr>task = strip_namespace task_name, task_status = status,
                       task_total = total_jobs, task_completed = completed_jobs + 1,
                       task_completed_percent = percent\<rparr>]\<rparr>)"
proof -
  have "consistent self" by (rule reachable_consistent [OF assms(1)])
  with assms(5) have "tasks self task_name \<noteq> None" unfolding consistent_def by blast
  then obtain st tot c where e: "tasks self task_name = Some (st, tot, c)"
    by (cases "tasks self task_name") auto
  show ?thesis
    using assms(2-6) e
    by (simp add: LoggingFilterProgress_filter_def update_log_record_def completed_percent_def Let_def)
qed

theorem filter_completed_job_witness:
  "feed (LoggingFilterProgress_init example_plan) [] = Inr (LoggingFilterProgress_init example_plan)
   \<and> endswith (filename (example_record ''Job  = [x -> out1.bam] completed'')) ''task.py''
   \<and> search_marker ''Job'' (msg (example_record ''Job  = [x -> out1.bam] completed''))
   \<and> search_output (msg (example_record ''Job  = [x -> out1.bam] completed'')) = Some ''out1.bam''
   \<and> map_job2task (LoggingFilterProgress_init example_plan) (remove_space ''out1.bam'') = Some ''align''
   \<and> contains (msg (example_record ''Job  = [x -> out1.bam] completed'')) ''completed''
   \<and> LoggingFilterProgress_filter (LoggingFilterProgress_init example_plan)
        (example_record ''Job  = [x -> out1.bam] completed'') =
      Inr (Some True,
           (example_record ''Job  = [x -> out1.bam] completed'')
             \<lparr>progress := Some (Some ''update'', 2, 2, 100)\<rparr>,
           (LoggingFilterProgress_init example_plan)
             \<lparr>tasks := (tasks (LoggingFilterProgress_init example_plan))
                         (''align'' \<mapsto> (Some ''update'', 2, 2)),
              logger := [\<lparr>task = ''align'', task_status = Some ''update'', task_total = 2,
                          task_completed = 2, task_completed_percent = 100\<rparr>]\<rparr>)"
proof -
  let ?r = "example_record ''Job  = [x -> out1.bam] completed''"
  have h1: "feed (LoggingFilterProgress_init example_plan) [] = Inr (LoggingFilterProgress_init example_plan)"
    by simp
  have h2: "endswith (filename ?r) ''task.py''" by code_simp
  have h3: "search_marker ''Job'' (msg ?r)" by code_simp
  have h4: "search_output (msg ?r) = Some ''out1.bam''" by code_simp
  have h6: "contains (msg ?r) ''completed''" by code_simp
  have n: "strip_namespace ''align'' = ''align''" by code_simp
  show ?thesis
    using h1 h2 h3 h4 example_plan_index h6
      filter_completed_job [OF h1 h2 h3 h4 example_plan_index h6]
    by (simp add: example_plan_align example_plan_logger n)
qed

text \<open>
  C10. In every state the filter object reaches from its construction, a record from
  \<^verbatim>\<open>task.py\<close> with the job marker whose output names a job of the index and whose
  message does not contain \<^verbatim>\<open>completed\<close> leaves every entry as it is, attaches the four
  progress attributes to the record, logs the event and keeps the record.
\<close>

theorem filter_uncompleted_job:
  assumes "feed (LoggingFilterProgress_init ruffus_text) records = Inr self"
    and "endswith (filename record) ''task.py''"
    and "search_marker ''Job'' (msg record)"
    and "search_output (msg record) = Some job_name"
    and "map_job2task self (remove_space job_name) = Some task_name"
    and "\<not> contains (msg record) ''completed''"
  shows "\<exists>status total_jobs completed_jobs percent.
     tasks self task_name = Some (status, total_jobs, completed_jobs)
     \<and> percent = (if 0 < total_jobs then 100 * of_int completed_jobs / of_int total_jobs else 0)
     \<and> LoggingFilterProgress_filter self record =
         Inr (Some True,
              record\<lparr>progress := Some (status, total_jobs, completed_jobs, percent)\<rparr>,
              self\<lparr>logger := logger self @
                     [\<lparr>task = strip_namespace task_name, task_status = status,
                       task_total = total_jobs, task_completed = completed_jobs,
                       task_completed_percent = percent\<rparr>]\<rparr>)
     \<and> decision_of (Some True) = Keep"
proof -
  have "consistent self" by (rule reachable_consistent [OF assms(1)])
  with assms(5) have "tasks self task_name \<noteq> None" unfolding consistent_def by blast
  then obtain st tot c where e: "tasks self task_name = Some (st, tot, c)"
    by (cases "tasks self task_name") auto
  show ?thesis
    using assms(2-6) e
    by (simp add: LoggingFilterProgress_filter_def update_log_record_def completed_percent_def Let_def
        decision_of_def)
qed

theorem filter_uncompleted_job_witness:
  "feed (LoggingFilterProgress_init example_plan) [] = Inr (LoggingFilterProgress_init example_plan)
   \<and> endswith (filename (example_record ''Job  = [x -> out1.bam] started'')) ''task.py''
   \<and> search_marker ''Job'' (msg (example_record ''Job  = [x -> out1.bam] started''))
   \<and> search_output (msg (example_record ''Job  = [x -> out1.bam] started'')) = Some ''out1.bam''
   \<and> map_job2task (LoggingFilterProgress_init example_plan) (remove_space ''out1.bam'') = Some ''align''
   \<and> \<not> contains (msg (example_record ''Job  = [x -> out1.bam] started'')) ''completed''
   \<and> LoggingFilterProgress_filter (LoggingFilterProgress_init example_plan)
        (example_record ''Job  = [x -> out1.bam] started'') =
      Inr (Some True,
           (example_record ''Job  = [x -> out1.bam] started'')
             \<lparr>progress := Some (Some ''update'', 2, 1, 50)\<rparr>,
           (LoggingFilterProgress_init example_plan)
             \<lparr>logger := [\<lparr>task = ''align'', task_status = Some ''update'', task_total = 2,
                          task_completed = 1, task_completed_percent = 50\<rparr>]\<rparr>)"
proof -
  let ?r = "example_record ''Job  = [x -> out1.bam] started''"
  have h1: "feed (LoggingFilterProgress_init example_plan) [] = Inr (LoggingFilterProgress_init example_plan)"
    by simp
  have h2: "endswith (filename ?r) ''task.py''" by code_simp
  have h3: "search_marker ''Job'' (msg ?r)" by code_simp
  have h4: "search_output (msg ?r) = Some ''out1.bam''" by code_simp
  have h6: "\<not> contains (msg ?r) ''completed''" by code_simp
  have n: "strip_namespace ''align'' = ''align''" by code_simp
  show ?thesis
    using h1 h2 h3 h4 example_plan_index h6
      filter_uncompleted_job [OF h1 h2 h3 h4 example_plan_index h6]
    by (simp add: example_plan_align example_plan_logger n)
qed

text \<open>
  C8. The filter object, constructed from any plan, consumes any sequence of records
  without raising; and of every task, at every point of the sequence, the percentage is
  0 when the total is 0, is never negative, and is not less at any later point.
\<close>

theorem completed_percent_monotone:
  "\<exists>s1 s2. feed (LoggingFilterProgress_init ruffus_text) records1 = Inr s1
     \<and> feed s1 records2 = Inr s2
     \<and> (\<forall>t e1. tasks s1 t = Some e1 \<longrightarrow>
          (\<exists>e2. tasks s2 t = Some e2
             \<and> completed_percent e1 \<le> completed_percent e2
             \<and> 0 \<le> completed_percent e1
             \<and> (fst (snd e1) = 0 \<longrightarrow> completed_percent e1 = 0)))"
proof -
  from feed_ok [OF init_consistent, of ruffus_text records1] obtain s1 where
    f1: "feed (LoggingFilterProgress_init ruffus_text) records1 = Inr s1" and c1: "consistent s1"
    by blast
  from feed_ok [OF c1, of records2] obtain s2 where
    f2: "feed s1 records2 = Inr s2" and a: "advances s1 s2"
    by blast
  have "\<exists>e2. tasks s2 t = Some e2
             \<and> completed_percent e1 \<le> completed_percent e2
             \<and> 0 \<le> completed_percent e1
             \<and> (fst (snd e1) = 0 \<longrightarrow> completed_percent e1 = 0)"
    if e: "tasks s1 t = Some e1" for t e1
  proof -
    obtain st tot c where e1: "e1 = (st, tot, c)" by (cases e1)
    from c1 e have nn: "0 \<le> tot" "0 \<le> c" unfolding consistent_def e1 by blast+
    from a e obtain st' c' where e2: "tasks s2 t = Some (st', tot, c')" and le: "c \<le> c'"
      unfolding advances_def e1 by blast
    have "completed_percent (st, tot, c) \<le> completed_percent (st', tot, c')"
      using le nn by (simp add: completed_percent_def divide_right_mono)
    moreover have "0 \<le> completed_percent (st, tot, c)"
      using nn by (simp add: completed_percent_def)
    moreover have "tot = 0 \<longrightarrow> completed_percent (st, tot, c) = 0"
      by (simp add: completed_percent_def)
    ultimately show ?thesis using e2 by (simp add: e1)
  qed
  with f1 f2 show ?thesis by blast
qed

theorem completed_percent_monotone_witness:
  "tasks (LoggingFilterProgress_init example_plan) ''align'' = Some (Some ''update'', 2, 1)
   \<and> (\<exists>s2 e2. feed (LoggingFilterProgress_init example_plan)
                 [example_record ''Job  = [x -> out1.bam] completed''] = Inr s2
        \<and> tasks s2 ''align'' = Some e2
        \<and> completed_percent (Some ''update'', 2, 1) \<le> completed_percent e2
        \<and> 0 \<le> completed_percent (Some ''update'', 2, 1))"
proof -
  from completed_percent_monotone [of example_plan "[]" "[example_record ''Job  = [x -> out1.bam] completed'']"]
  obtain s1 s2 where
    f1: "feed (LoggingFilterProgress_init example_plan) [] = Inr s1"
    and f2: "feed s1 [example_record ''Job  = [x -> out1.bam] completed''] = Inr s2"
    and m: "\<forall>t e1. tasks s1 t = Some e1 \<longrightarrow>
          (\<exists>e2. tasks s2 t = Some e2
             \<and> completed_percent e1 \<le> completed_percent e2
             \<and> 0 \<le> completed_percent e1
             \<and> (fst (snd e1) = 0 \<longrightarrow> completed_percent e1 = 0))"
    by blast
  from f1 have s1: "s1 = LoggingFilterProgress_init example_plan" by simp
  from m example_plan_align show ?thesis using f2 unfolding s1 by blast
qed

subsection \<open>ruffus_return_dag\<close>

lemma budget_mono: "u \<le> u' \<Longrightarrow> budget d u \<le> budget d u'"
proof (induction u' arbitrary: u)
  case 0
  then show ?case by simp
next
  case (Suc u')
  show ?case
  proof (cases u)
    case 0
    then show ?thesis by simp
  next
    case (Suc v)
    with Suc.prems have "v \<le> u'" by simp
    from Suc.IH [OF this] show ?thesis by (simp add: Suc)
  qed
qed

lemma card_unvisited:
  assumes "finite N" "t \<in> N" "t \<notin> V"
  shows "card (N - V) = Suc (card (N - insert t V))"
proof -
  have "N - V = insert t (N - insert t V)" using assms by auto
  moreover have "t \<notin> N - insert t V" by simp
  moreover have "finite (N - insert t V)" using assms(1) by simp
  ultimately show ?thesis by (metis card_insert_disjoint)
qed

lemma weight_popped:
  assumes "finite N" "t \<in> N"
  shows "weight d N V t = 1 + d * budget d (card (N - insert t V))"
proof (cases "t \<in> V")
  case True
  then have "insert t V = V" by auto
  then show ?thesis using True by (simp add: weight_def)
next
  case False
  then show ?thesis using card_unvisited [OF assms False] by (simp add: weight_def)
qed

lemma weight_shrinks:
  assumes "finite N" "t \<in> N"
  shows "weight d N (insert t V) n \<le> weight d N V n"
proof (cases "t \<in> V")
  case True
  then have "insert t V = V" by auto
  then show ?thesis by simp
next
  case False
  note c = card_unvisited [OF assms False]
  show ?thesis unfolding weight_def
    by (rule budget_mono) (simp add: c)
qed

lemma work_rest: 
  assumes "finite N" "t \<in> N"
  shows "work d N (insert t V) rest \<le> work d N V rest"
  unfolding work_def by (rule sum_list_mono) (rule weight_shrinks [OF assms])

lemma work_pushed:
  assumes "\<forall>n \<in> set new. n \<notin> V'" "length new \<le> d"
  shows "work d N V' new \<le> d * budget d (card (N - V'))"
proof -
  have "work d N V' new = sum_list (map (\<lambda>n. budget d (card (N - V'))) new)"
    unfolding work_def using assms(1) by (intro arg_cong [where f = sum_list] map_cong) (auto simp: weight_def)
  also have "\<dots> = length new * budget d (card (N - V'))"
    by (simp add: sum_list_const_mult sum_list_triv)
  also have "\<dots> \<le> d * budget d (card (N - V'))"
    using assms(2) by simp
  finally show ?thesis .
qed

lemma work_step:
  assumes "finite N" "t \<in> N" "length (inward t) \<le> d"
  shows "work d N (insert t V) (rest @ filter (\<lambda>tt. tt \<notin> insert t V) (inward t)) < work d N V (t # rest)"
proof -
  let ?V = "insert t V"
  let ?new = "filter (\<lambda>tt. tt \<notin> ?V) (inward t)"
  have "length ?new \<le> d" using assms(3) by (meson le_trans length_filter_le)
  then have p: "work d N ?V ?new \<le> d * budget d (card (N - ?V))"
    by (intro work_pushed) auto
  have "work d N ?V (rest @ ?new) = work d N ?V rest + work d N ?V ?new"
    by (simp add: work_def)
  also have "\<dots> \<le> work d N V rest + d * budget d (card (N - ?V))"
    using work_rest [OF assms(1,2), of d V rest] p by simp
  also have "\<dots> < work d N V (t # rest)"
    using weight_popped [OF assms(1,2), of d V] by (simp add: work_def)
  finally show ?thesis .
qed

lemma dag_loop_returns_bounded:
  assumes "finite N" "\<forall>n\<in>N. set (inward n) \<subseteq> N" "\<forall>n\<in>N. length (inward n) \<le> d" "set stack \<subseteq> N"
  shows "\<exists>r. dag_loop inward stack V written = Some r"
  using assms(4)
proof (induction "work d N V stack" arbitrary: stack V written rule: less_induct)
  case less
  show ?case
  proof (cases stack)
    case Nil
    then show ?thesis by (simp add: dag_loop.simps)
  next
    case (Cons t rest)
    with less.prems have t: "t \<in> N" and rest: "set rest \<subseteq> N" by auto
    let ?stack = "rest @ filter (\<lambda>tt. tt \<notin> insert t V) (inward t)"
    have "set ?stack \<subseteq> N" using rest assms(2) t by auto
    moreover have "work d N (insert t V) ?stack < work d N V stack"
      unfolding Cons using assms(1) t assms(3) by (intro work_step) auto
    ultimately have "\<exists>r. dag_loop inward ?stack (insert t V) (written @ [t]) = Some r"
      by (rule less.hyps [rotated])
    then show ?thesis by (subst dag_loop.simps) (simp add: Cons)
  qed
qed

text \<open>
  The loop returns on every graph whose tasks reachable from the stack are finitely many,
  cycles or not.
\<close>

lemma dag_loop_returns:
  assumes "finite N" "\<forall>n\<in>N. set (inward n) \<subseteq> N" "set stack \<subseteq> N"
  shows "\<exists>r. dag_loop inward stack V written = Some r"
proof -
  have "\<forall>n\<in>N. length (inward n) \<le> Max ((\<lambda>n. length (inward n)) ` N)"
    using assms(1) by simp
  from dag_loop_returns_bounded [OF assms(1,2) this assms(3)] show ?thesis .
qed

lemma ruffus_return_dag_returns:
  assumes "finite N" "\<forall>n\<in>N. set (get_inward g n) \<subseteq> N"
    and "set (target_tasks @ forcedtorun_tasks) \<subseteq> N"
  shows "\<exists>stream. ruffus_return_dag g target_tasks forcedtorun_tasks = Some stream"
  using dag_loop_returns [OF assms, of "{}" "[]"] by (auto simp: ruffus_return_dag_def)

text \<open>On the cycle A, B with target A the loop writes A and B once each.\<close>

lemma ruffus_return_dag_two_cycle:
  "dag_loop (get_inward two_cycle) ([''A''] @ []) {} [] = Some [''A'', ''B'']"
  by (simp add: dag_loop.simps two_cycle_def)

text \<open>
  C7 at the diamond with target A. A task enters the visited set when it is taken from
  the stack, not when it is appended: D is appended by B and again by C before it is
  taken, and its row is written twice.
\<close>

theorem ruffus_return_dag_diamond:
  "dag_loop (get_inward diamond) ([''A''] @ []) {} [] = Some [''A'', ''B'', ''C'', ''D'', ''D'']
   \<and> ruffus_return_dag diamond [''A''] [] =
       Some ((''function'' @ [CHR 0x09] @ ''active'' @ [CHR 0x09] @ ''output_files''
                @ [CHR 0x09] @ ''parents'' @ [CHR 0x0A])
             # map (row diamond) [''A'', ''B'', ''C'', ''D'', ''D''])
   \<and> row diamond ''D'' = ''D'' @ [CHR 0x09] @ ''True'' @ [CHR 0x09] @ ''D.out'' @ [CHR 0x09] @ [CHR 0x0A]"
  by (simp add: ruffus_return_dag_def dag_loop.simps diamond_def row_def str_bool_def)

subsection \<open>Reading the plan\<close>

lemma task_blocks_prefix:
  "\<exists>ys b n. \<forall>xs. task_blocks (pre @ xs) block name st = ys @ task_blocks xs b n (mode_after st pre)"
proof (induction pre arbitrary: block name st)
  case Nil
  have "\<forall>xs. task_blocks ([] @ xs) block name st = [] @ task_blocks xs block name (mode_after st [])"
    by simp
  then show ?case by blast
next
  case (Cons l pre)
  consider (marker_run) "startswith l ''Tasks which will be run''"
    | (marker_utd) "\<not> startswith l ''Tasks which will be run''" "startswith l ''Tasks which are up-to-date''"
    | (header) "\<not> startswith l ''Tasks which will be run''" "\<not> startswith l ''Tasks which are up-to-date''"
        "startswith l ''Task = ''"
    | (content) "\<not> startswith l ''Tasks which will be run''" "\<not> startswith l ''Tasks which are up-to-date''"
        "\<not> startswith l ''Task = ''" "l \<noteq> []"
    | (blank) "\<not> startswith l ''Tasks which will be run''" "\<not> startswith l ''Tasks which are up-to-date''"
        "\<not> startswith l ''Task = ''" "l = []"
    by blast
  then show ?case
  proof cases
    case marker_run
    from Cons.IH [of "[]" name "Some ''update''"] obtain ys b n where
      "\<forall>xs. task_blocks (pre @ xs) [] name (Some ''update'') = ys @ task_blocks xs b n (mode_after (Some ''update'') pre)"
      by blast
    with marker_run have "\<forall>xs. task_blocks ((l # pre) @ xs) block name st = ys @ task_blocks xs b n (mode_after st (l # pre))"
      by simp
    then show ?thesis by blast
  next
    case marker_utd
    from Cons.IH [of "[]" name "Some ''ignore''"] obtain ys b n where
      "\<forall>xs. task_blocks (pre @ xs) [] name (Some ''ignore'') = ys @ task_blocks xs b n (mode_after (Some ''ignore'') pre)"
      by blast
    with marker_utd have "\<forall>xs. task_blocks ((l # pre) @ xs) block name st = ys @ task_blocks xs b n (mode_after st (l # pre))"
      by simp
    then show ?thesis by blast
  next
    case header
    from Cons.IH [of "[]" "Some (drop 7 l)" st] obtain ys b n where
      "\<forall>xs. task_blocks (pre @ xs) [] (Some (drop 7 l)) st = ys @ task_blocks xs b n (mode_after st pre)"
      by blast
    with header have "\<forall>xs. task_blocks ((l # pre) @ xs) block name st =
        (flush name st block @ ys) @ task_blocks xs b n (mode_after st (l # pre))"
      by simp
    then show ?thesis by blast
  next
    case content
    from Cons.IH [of "block @ [l]" name st] obtain ys b n where
      "\<forall>xs. task_blocks (pre @ xs) (block @ [l]) name st = ys @ task_blocks xs b n (mode_after st pre)"
      by blast
    with content have "\<forall>xs. task_blocks ((l # pre) @ xs) block name st = ys @ task_blocks xs b n (mode_after st (l # pre))"
      by simp
    then show ?thesis by blast
  next
    case blank
    from Cons.IH [of block name st] obtain ys b n where
      "\<forall>xs. task_blocks (pre @ xs) block name st = ys @ task_blocks xs b n (mode_after st pre)"
      by blast
    with blank have "\<forall>xs. task_blocks ((l # pre) @ xs) block name st = ys @ task_blocks xs b n (mode_after st (l # pre))"
      by simp
    then show ?thesis by blast
  qed
qed

lemma startswith_append: "startswith s p \<Longrightarrow> s = p @ drop (length p) s"
  unfolding startswith_def by (metis append_take_drop_id)

lemma header_is_no_marker:
  assumes "startswith l ''Task = ''"
  shows "\<not> startswith l ''Tasks which will be run'' \<and> \<not> startswith l ''Tasks which are up-to-date''"
proof -
  from startswith_append [OF assms] obtain r where l: "l = ''Task = '' @ r" by blast
  show ?thesis unfolding l by (simp add: startswith_def)
qed

lemma task_blocks_header:
  assumes "startswith l ''Task = ''"
  shows "task_blocks (l # xs) block name st = flush name st block @ task_blocks xs [] (Some (drop 7 l)) st"
  using assms header_is_no_marker [OF assms] by simp

lemma task_blocks_body:
  assumes "\<forall>l\<in>set body. \<not> startswith l ''Tasks which will be run''
      \<and> \<not> startswith l ''Tasks which are up-to-date'' \<and> \<not> startswith l ''Task = ''"
  shows "task_blocks (body @ xs) block name st = task_blocks xs (block @ filter (\<lambda>l. l \<noteq> []) body) name st"
  using assms by (induction body arbitrary: block) auto

lemma task_blocks_close:
  assumes "rest = [] \<or> startswith (hd rest) ''Task = ''" "n \<noteq> []"
  shows "task_blocks rest block (Some n) st = (n, st, split_by_job block) # task_blocks rest [] None st"
proof (cases rest)
  case Nil
  then show ?thesis using assms(2) by (simp add: flush_def)
next
  case (Cons h r)
  with assms(1) have h: "startswith h ''Task = ''" by simp
  show ?thesis unfolding Cons task_blocks_header [OF h] using assms(2) by (simp add: flush_def)
qed

lemma strip_last: "strip s \<noteq> [] \<Longrightarrow> \<not> is_space (last (strip s))"
proof -
  assume a: "strip s \<noteq> []"
  let ?r = "dropWhile is_space (rev (dropWhile is_space s))"
  from a have ne: "?r \<noteq> []" by (simp add: strip_def)
  then have "\<not> is_space (hd ?r)" by (rule hd_dropWhile)
  moreover have "last (strip s) = hd ?r" using ne by (simp add: strip_def last_rev)
  ultimately show ?thesis by simp
qed

lemma header_name:
  assumes "startswith (strip s) ''Task = ''"
  shows "drop 7 (strip s) \<noteq> []"
proof
  assume "drop 7 (strip s) = []"
  then have "take 7 (strip s) = strip s" by simp
  with assms have e: "strip s = ''Task = ''" by (simp add: startswith_def)
  then have "strip s \<noteq> []" by simp
  from strip_last [OF this] show False unfolding e by (simp add: is_space_def)
qed

lemma populate_append: "populate (xs @ ys) s = populate ys (populate xs s)"
proof (induction xs arbitrary: s)
  case Nil
  then show ?case by simp
next
  case (Cons b xs)
  obtain n st js where b: "b = (n, st, js)" by (cases b)
  show ?case unfolding b by (simp add: Cons.IH split: prod.split)
qed

lemma populate_tasks_other:
  "\<forall>b\<in>set bs. fst b \<noteq> n \<Longrightarrow> tasks (populate bs s) n = tasks s n"
proof (induction bs arbitrary: s)
  case Nil
  then show ?case by simp
next
  case (Cons b bs)
  obtain m st js where b: "b = (m, st, js)" by (cases b)
  obtain to_run s' where e: "enter_jobs m js (0, s) = (to_run, s')" by (cases "enter_jobs m js (0, s)")
  have t: "tasks s' = tasks s" using enter_jobs_tasks [of m js 0 s] e by simp
  from Cons.prems have m: "m \<noteq> n" and r: "\<forall>b\<in>set bs. fst b \<noteq> n" by (auto simp: b)
  show ?case unfolding b using m by (simp add: e Cons.IH [OF r] t)
qed

lemma populate_index_other:
  "\<forall>b\<in>set bs. \<not> startswith (fst b) ''(mkdir'' \<longrightarrow>
       k \<notin> (\<lambda>j. remove_space (fst j)) ` set (snd (snd b)) \<Longrightarrow>
   map_job2task (populate bs s) k = map_job2task s k"
proof (induction bs arbitrary: s)
  case Nil
  then show ?case by simp
next
  case (Cons b bs)
  obtain m st js where b: "b = (m, st, js)" by (cases b)
  obtain to_run s' where e: "enter_jobs m js (0, s) = (to_run, s')" by (cases "enter_jobs m js (0, s)")
  have i: "map_job2task s' k =
      (if k \<in> (\<lambda>j. remove_space (fst j)) ` set js then Some m else map_job2task s k)"
    using enter_jobs_index [of m js 0 s k] e by simp
  from Cons.prems have r: "\<forall>b\<in>set bs. \<not> startswith (fst b) ''(mkdir'' \<longrightarrow>
       k \<notin> (\<lambda>j. remove_space (fst j)) ` set (snd (snd b))" by simp
  from Cons.prems have h: "\<not> startswith m ''(mkdir'' \<longrightarrow> k \<notin> (\<lambda>j. remove_space (fst j)) ` set js"
    by (simp add: b)
  show ?case unfolding b using h by (simp add: e Cons.IH [OF r] i)
qed

lemma populate_one:
  assumes "\<not> startswith n ''(mkdir''"
  shows "tasks (populate [(n, st, js)] s) n =
           Some (st, int (length js),
                 int (length js) - int (length (filter (\<lambda>j. snd j = ''update'') js)))"
    and "j \<in> set js \<Longrightarrow> map_job2task (populate [(n, st, js)] s) (remove_space (fst j)) = Some n"
proof -
  obtain to_run s' where e: "enter_jobs n js (0, s) = (to_run, s')" by (cases "enter_jobs n js (0, s)")
  have r: "to_run = int (length (filter (\<lambda>j. snd j = ''update'') js))"
    using enter_jobs_to_run [of n js 0 s] e by simp
  have i: "\<And>k. map_job2task s' k =
      (if k \<in> (\<lambda>j. remove_space (fst j)) ` set js then Some n else map_job2task s k)"
    using enter_jobs_index [of n js 0 s] e by simp
  show "tasks (populate [(n, st, js)] s) n =
           Some (st, int (length js),
                 int (length js) - int (length (filter (\<lambda>j. snd j = ''update'') js)))"
    using assms by (simp add: e r)
  show "map_job2task (populate [(n, st, js)] s) (remove_space (fst j)) = Some n" if "j \<in> set js"
    using assms that by (simp add: e i)
qed

text \<open>
  A task header, the lines up to the next task header or the end of the text, no section
  marker among them: \<^verbatim>\<open>split_by_task\<close> yields the task with the mode of its section and
  the jobs of these lines.
\<close>

lemma split_by_task_block:
  assumes "map strip (splitlines ruffus_text) = pre @ header # body @ rest"
    and "startswith header ''Task = ''"
    and "\<forall>l\<in>set body. \<not> startswith l ''Tasks which will be run''
           \<and> \<not> startswith l ''Tasks which are up-to-date'' \<and> \<not> startswith l ''Task = ''"
    and "rest = [] \<or> startswith (hd rest) ''Task = ''"
  shows "\<exists>earlier. split_by_task ruffus_text =
           earlier @ [(drop 7 header, mode_after None pre, split_by_job (filter (\<lambda>l. l \<noteq> []) body))]
             @ task_blocks rest [] None (mode_after None pre)"
proof -
  let ?mode = "mode_after None pre"
  have "header \<in> set (map strip (splitlines ruffus_text))" unfolding assms(1) by simp
  then obtain x where "header = strip x" by auto
  with assms(2) have name: "drop 7 header \<noteq> []" using header_name by blast
  from task_blocks_prefix [of pre "[]" None None] obtain ys b n where
    p: "\<forall>xs. task_blocks (pre @ xs) [] None None = ys @ task_blocks xs b n ?mode"
    by blast
  have "split_by_task ruffus_text = ys @ task_blocks (header # body @ rest) b n ?mode"
    unfolding split_by_task_def assms(1) using p by blast
  also have "task_blocks (header # body @ rest) b n ?mode =
      flush n ?mode b @ task_blocks (body @ rest) [] (Some (drop 7 header)) ?mode"
    by (rule task_blocks_header [OF assms(2)])
  also have "task_blocks (body @ rest) [] (Some (drop 7 header)) ?mode =
      task_blocks rest ([] @ filter (\<lambda>l. l \<noteq> []) body) (Some (drop 7 header)) ?mode"
    by (rule task_blocks_body [OF assms(3)])
  also have "\<dots> = (drop 7 header, ?mode, split_by_job ([] @ filter (\<lambda>l. l \<noteq> []) body))
      # task_blocks rest [] None ?mode"
    by (rule task_blocks_close [OF assms(4) name])
  finally have "split_by_task ruffus_text =
      (ys @ flush n ?mode b) @ [(drop 7 header, ?mode, split_by_job (filter (\<lambda>l. l \<noteq> []) body))]
        @ task_blocks rest [] None ?mode"
    by simp
  then show ?thesis by blast
qed

text \<open>
  Where the parser follows the plan. Take a task header whose block is closed by the
  next task header or by the end of the text; the task is not a \<^verbatim>\<open>(mkdir\<close> task and no
  later block has its name. With \<open>js\<close> the jobs of the block, the entry of the task is
  the mode of its section, the number of jobs, and the number of jobs without the status
  \<^verbatim>\<open>update\<close>. The label of each job, without its whitespace, is mapped to the task,
  unless a later block that is not a \<^verbatim>\<open>(mkdir\<close> task has a job with the same label.
\<close>

lemma task_block_entry:
  assumes "map strip (splitlines ruffus_text) = pre @ header # body @ rest"
    and "startswith header ''Task = ''"
    and "\<forall>l\<in>set body. \<not> startswith l ''Tasks which will be run''
           \<and> \<not> startswith l ''Tasks which are up-to-date'' \<and> \<not> startswith l ''Task = ''"
    and "rest = [] \<or> startswith (hd rest) ''Task = ''"
    and "\<not> startswith (drop 7 header) ''(mkdir''"
    and "\<forall>b\<in>set (task_blocks rest [] None (mode_after None pre)). fst b \<noteq> drop 7 header"
    and "js = split_by_job (filter (\<lambda>l. l \<noteq> []) body)"
  shows "tasks (LoggingFilterProgress_init ruffus_text) (drop 7 header) =
           Some (mode_after None pre, int (length js),
                 int (length js) - int (length (filter (\<lambda>j. snd j = ''update'') js)))
       \<and> (\<forall>j\<in>set js.
            (\<forall>b\<in>set (task_blocks rest [] None (mode_after None pre)).
               \<not> startswith (fst b) ''(mkdir'' \<longrightarrow>
               remove_space (fst j) \<notin> (\<lambda>j'. remove_space (fst j')) ` set (snd (snd b)))
            \<longrightarrow> map_job2task (LoggingFilterProgress_init ruffus_text) (remove_space (fst j))
                  = Some (drop 7 header))"
proof -
  let ?later = "task_blocks rest [] None (mode_after None pre)"
  let ?s0 = "\<lparr>jobs = Map.empty, tasks = Map.empty, map_job2task = Map.empty, logger = []\<rparr>"
  from split_by_task_block [OF assms(1-4)] obtain earlier where
    sp: "split_by_task ruffus_text = earlier @ [(drop 7 header, mode_after None pre, js)] @ ?later"
    unfolding assms(7) by blast
  have init: "LoggingFilterProgress_init ruffus_text =
      populate ?later (populate [(drop 7 header, mode_after None pre, js)] (populate earlier ?s0))"
    unfolding LoggingFilterProgress_init_def sp by (simp only: populate_append)
  have "tasks (LoggingFilterProgress_init ruffus_text) (drop 7 header) =
           Some (mode_after None pre, int (length js),
                 int (length js) - int (length (filter (\<lambda>j. snd j = ''update'') js)))"
    unfolding init populate_tasks_other [OF assms(6)] by (rule populate_one(1) [OF assms(5)])
  moreover have "map_job2task (LoggingFilterProgress_init ruffus_text) (remove_space (fst j))
                  = Some (drop 7 header)"
    if j: "j \<in> set js"
      and l: "\<forall>b\<in>set ?later. \<not> startswith (fst b) ''(mkdir'' \<longrightarrow>
               remove_space (fst j) \<notin> (\<lambda>j'. remove_space (fst j')) ` set (snd (snd b))" for j
    unfolding init populate_index_other [OF l] by (rule populate_one(2) [OF assms(5) j])
  ultimately show ?thesis by blast
qed

text \<open>The task \<^verbatim>\<open>align\<close> of the plan with two sections is such a block.\<close>

lemma task_block_entry_example:
  "map strip (splitlines two_section_plan) =
     [''Tasks which are up-to-date:'', ''Task = prepare'', ''Job  = [in.txt -> prep.txt]'',
      ''________________________________________'', ''Tasks which will be run:'']
     @ ''Task = align''
     # [''Job  = [prep.txt -> out1.bam]'', ''Job needs update: Missing file [out1.bam]'',
        ''Job  = [prep.txt -> out2.bam]'']
     @ [''Task = report'', ''Job  = [out1.bam -> report.txt]'',
        ''Job needs update: Missing file [report.txt]'']
   \<and> tasks (LoggingFilterProgress_init two_section_plan) ''align'' = Some (Some ''update'', 2, 1)
   \<and> map_job2task (LoggingFilterProgress_init two_section_plan) ''out1.bam'' = Some ''align''
   \<and> map_job2task (LoggingFilterProgress_init two_section_plan) ''out2.bam'' = Some ''align''"
proof -
  let ?pre = "[''Tasks which are up-to-date:'', ''Task = prepare'', ''Job  = [in.txt -> prep.txt]'',
      ''________________________________________'', ''Tasks which will be run:'']"
  let ?body = "[''Job  = [prep.txt -> out1.bam]'', ''Job needs update: Missing file [out1.bam]'',
        ''Job  = [prep.txt -> out2.bam]'']"
  let ?rest = "[''Task = report'', ''Job  = [out1.bam -> report.txt]'',
        ''Job needs update: Missing file [report.txt]'']"
  let ?js = "[(''out1.bam'', ''update''), (''out2.bam'', ''ignore'')]"
  have h1: "map strip (splitlines two_section_plan) = ?pre @ ''Task = align'' # ?body @ ?rest"
    by code_simp
  have h2: "startswith ''Task = align'' ''Task = ''" by code_simp
  have h3: "\<forall>l\<in>set ?body. \<not> startswith l ''Tasks which will be run''
           \<and> \<not> startswith l ''Tasks which are up-to-date'' \<and> \<not> startswith l ''Task = ''"
    by code_simp
  have h4: "?rest = [] \<or> startswith (hd ?rest) ''Task = ''" by code_simp
  have h5: "\<not> startswith (drop 7 ''Task = align'') ''(mkdir''" by code_simp
  have m: "mode_after None ?pre = Some ''update''" by code_simp
  have later: "task_blocks ?rest [] None (Some ''update'') =
      [(''report'', Some ''update'', [(''report.txt'', ''update'')])]"
    by code_simp
  have h6: "\<forall>b\<in>set (task_blocks ?rest [] None (mode_after None ?pre)). fst b \<noteq> drop 7 ''Task = align''"
    unfolding m later by simp
  have h7: "?js = split_by_job (filter (\<lambda>l. l \<noteq> []) ?body)" by code_simp
  have r: "remove_space ''out1.bam'' = ''out1.bam''" "remove_space ''out2.bam'' = ''out2.bam''"
      "remove_space ''report.txt'' = ''report.txt''"
    by code_simp+
  have n: "drop 7 ''Task = align'' = ''align''" by simp
  from task_block_entry [OF h1 h2 h3 h4 h5 h6 h7]
  have "tasks (LoggingFilterProgress_init two_section_plan) ''align'' = Some (Some ''update'', 2, 1)
   \<and> map_job2task (LoggingFilterProgress_init two_section_plan) ''out1.bam'' = Some ''align''
   \<and> map_job2task (LoggingFilterProgress_init two_section_plan) ''out2.bam'' = Some ''align''"
    unfolding m later n by (simp add: r)
  with h1 show ?thesis by blast
qed

text \<open>
  C3 at the plan with two sections. The task \<^verbatim>\<open>prepare\<close> stands under the up-to-date
  marker; the lines of its block hold one job fragment, with the output \<^verbatim>\<open>prep.txt\<close>
  and without \<^verbatim>\<open>Job needs update\<close>, so the claim gives it the status \<^verbatim>\<open>ignore\<close>,
  total 1, completed 1, and \<^verbatim>\<open>prep.txt\<close> in the index. The line
  \<^verbatim>\<open>Tasks which will be run\<close> empties the block and sets the status without yielding the
  open task, as a task header would: \<^verbatim>\<open>prepare\<close> is yielded at the next task header
  with no job and the status \<^verbatim>\<open>update\<close>. Its entry is \<^verbatim>\<open>update\<close>, 0, 0, and
  \<^verbatim>\<open>prep.txt\<close> is no key of the index.
\<close>

theorem section_marker_drops_open_task:
  "map strip (splitlines two_section_plan) =
     [''Tasks which are up-to-date:'',
      ''Task = prepare'',
      ''Job  = [in.txt -> prep.txt]'',
      ''________________________________________'',
      ''Tasks which will be run:'',
      ''Task = align'',
      ''Job  = [prep.txt -> out1.bam]'',
      ''Job needs update: Missing file [out1.bam]'',
      ''Job  = [prep.txt -> out2.bam]'',
      ''Task = report'',
      ''Job  = [out1.bam -> report.txt]'',
      ''Job needs update: Missing file [report.txt]'']
   \<and> re_split_Job [] (concat [''Job  = [in.txt -> prep.txt]'',
                                ''________________________________________'']) =
       [[], '' [in.txt -> prep.txt]________________________________________'']
   \<and> search_output '' [in.txt -> prep.txt]________________________________________''
       = Some ''prep.txt''
   \<and> \<not> contains '' [in.txt -> prep.txt]________________________________________''
         ''Job needs update''
   \<and> split_by_job [''Job  = [in.txt -> prep.txt]'', ''________________________________________'']
       = [(''prep.txt'', ''ignore'')]
   \<and> mode_after None [''Tasks which are up-to-date:''] = Some ''ignore''
   \<and> split_by_task two_section_plan =
       [(''prepare'', Some ''update'', []),
        (''align'', Some ''update'', [(''out1.bam'', ''update''), (''out2.bam'', ''ignore'')]),
        (''report'', Some ''update'', [(''report.txt'', ''update'')])]
   \<and> tasks (LoggingFilterProgress_init two_section_plan) ''prepare'' = Some (Some ''update'', 0, 0)
   \<and> tasks (LoggingFilterProgress_init two_section_plan) ''prepare'' \<noteq> Some (Some ''ignore'', 1, 1)
   \<and> map_job2task (LoggingFilterProgress_init two_section_plan) (remove_space ''prep.txt'') = None"
  by code_simp

end
